theory Spec2Isabelle
  imports Main "HOL-Library.Product_Lexorder"
begin

section \<open>Fibonacci mod m: the orbit enumerator of fibonacci\_mod.cpp\<close>

text \<open>
  The C++ type \<open>int64\<close> is modelled by \<open>int\<close> and \<open>size_t\<close> by \<open>nat\<close>, with the
  64-bit arithmetic written out where a value of the program can leave the range: the
  sum of the two components in the transition wraps as a two's-complement \<open>int64\<close>
  (\<open>wrap64\<close>), and the iteration cap is computed modulo \<open>2 ^ 64\<close> as \<open>size_t\<close>
  arithmetic does. The loop counters stay below values that are themselves in range.
  The progress messages written to \<open>std::cerr\<close> do not influence any variable of the
  computation and are left out, and so are the calls of \<open>reserve\<close>.
\<close>

subsection \<open>Pairs and their comparison\<close>

type_synonym Pair = "int \<times> int"

text \<open>
  The value an \<open>int64\<close> holds after an addition whose mathematical result is \<open>x\<close>
  (\<open>9223372036854775808\<close> is \<open>2\<^sup>6\<^sup>3\<close> and \<open>18446744073709551616\<close> is \<open>2\<^sup>6\<^sup>4\<close>), and
  the operator \<open>%\<close> of C++, which truncates towards zero: the result has the sign of the
  dividend.
\<close>

definition wrap64 :: "int \<Rightarrow> int" where
  "wrap64 x = (x + 9223372036854775808) mod 18446744073709551616 - 9223372036854775808"

definition cmod :: "int \<Rightarrow> int \<Rightarrow> int" where
  "cmod a b = (if a < 0 then - ((- a) mod \<bar>b\<bar>) else a mod \<bar>b\<bar>)"

definition comparePairs :: "Pair \<Rightarrow> Pair \<Rightarrow> int" where
  "comparePairs a b =
     (if fst a \<noteq> fst b then (if fst a < fst b then - 1 else 1)
      else if snd a \<noteq> snd b then (if snd a < snd b then - 1 else 1)
      else 0)"

subsection \<open>Canonical rotation\<close>

text \<open>The loop \<open>for (i = 1; i < cycle.size(); ++i)\<close> with the running \<open>minIdx\<close>.\<close>

definition findMinCycleIndex :: "Pair list \<Rightarrow> nat" where
  "findMinCycleIndex cycle =
     fold (\<lambda>i minIdx. if comparePairs (cycle ! i) (cycle ! minIdx) < 0 then i else minIdx)
          [1..<length cycle] 0"

definition canonicalCycle :: "Pair list \<Rightarrow> Pair list" where
  "canonicalCycle cycle =
     (if cycle = [] then []
      else let minIdx = findMinCycleIndex cycle
           in map (\<lambda>i. cycle ! ((minIdx + i) mod length cycle)) [0..<length cycle])"

subsection \<open>The traversal from one starting pair\<close>

text \<open>
  How the \<open>while (iterations < maxIterations)\<close> loop is left: by the \<open>break\<close> of the
  branch that found \<open>current\<close> in \<open>seenIndex\<close>, with the slice of \<open>path\<close> copied into
  \<open>cycle\<close>, or by its condition becoming false.
\<close>

datatype loop_exit = CycleFound "Pair list" | CapReached

text \<open>The statements under the comment "compute the next state" (\<open>nextA\<close>, \<open>nextB\<close>).\<close>

definition nextState :: "int \<Rightarrow> Pair \<Rightarrow> Pair" where
  "nextState base current = (snd current, cmod (wrap64 (fst current + snd current)) base)"

text \<open>\<open>static_cast<size_t>(base) * base * 2 + 1000\<close>, in \<open>size_t\<close>: modulo \<open>2\<^sup>6\<^sup>4\<close>.\<close>

definition maxIterations :: "int \<Rightarrow> nat" where
  "maxIterations base = nat ((base * base * 2 + 1000) mod 18446744073709551616)"

function walk ::
  "int \<Rightarrow> nat \<Rightarrow> Pair \<Rightarrow> Pair list \<Rightarrow> (Pair \<rightharpoonup> nat) \<Rightarrow> nat \<Rightarrow> Pair list \<times> nat \<times> loop_exit"
where
  "walk base cap current path seenIndex iterations =
     (if iterations < cap then
        (case seenIndex current of
           Some start \<Rightarrow> (path, iterations, CycleFound (drop start path))
         | None \<Rightarrow>
             walk base cap (nextState base current)
               (path @ [current]) (seenIndex(current \<mapsto> length path)) (Suc iterations))
      else (path, iterations, CapReached))"
  by pat_completeness auto
termination
  by (relation "measure (\<lambda>(base, cap, current, path, seenIndex, iterations). cap - iterations)") auto

declare walk.simps [simp del]

subsection \<open>The scan over all starting pairs\<close>

text \<open>
  \<open>PairHash\<close> only chooses the bucket of a pair: \<open>std::unordered_set\<close> and
  \<open>std::unordered_map\<close> decide membership by equality of the pairs, so \<open>visited\<close> is a
  set of pairs and \<open>seenIndex\<close> a map from pairs to positions.
\<close>

record scan_state =
  visited :: "Pair set"
  rawCycles :: "Pair list list"

text \<open>The body of the inner \<open>for\<close> loop, for the starting pair \<open>(a0, b0)\<close>.\<close>

definition startStep :: "int \<Rightarrow> Pair \<Rightarrow> scan_state \<Rightarrow> scan_state" where
  "startStep base key st =
     (if key \<in> visited st then st
      else
        (case walk base (maxIterations base) key [] Map.empty 0 of
           (path, iterations, ex) \<Rightarrow>
             \<lparr> visited = fold insert path (visited st),
               rawCycles =
                 (case ex of
                    CycleFound cycle \<Rightarrow>
                      if cycle \<noteq> [] then rawCycles st @ [canonicalCycle cycle] else rawCycles st
                  | CapReached \<Rightarrow> rawCycles st) \<rparr>))"

definition scanAll :: "int \<Rightarrow> scan_state" where
  "scanAll base =
     fold (\<lambda>a0. fold (\<lambda>b0. startStep base (a0, b0)) [0..base - 1]) [0..base - 1]
       \<lparr> visited = {}, rawCycles = [] \<rparr>"

subsection \<open>Deduplication by string key\<close>

text \<open>\<open>std::to_string\<close> on a 64-bit integer: decimal digits, with a leading minus sign.\<close>

definition digit_char :: "nat \<Rightarrow> char" where
  "digit_char d = ''0123456789'' ! d"

fun to_string_nat :: "nat \<Rightarrow> string" where
  "to_string_nat n =
     (if n < 10 then [digit_char n] else to_string_nat (n div 10) @ [digit_char (n mod 10)])"

declare to_string_nat.simps [simp del]

definition to_string :: "int \<Rightarrow> string" where
  "to_string i = (if i < 0 then CHR ''-'' # to_string_nat (nat (- i)) else to_string_nat (nat i))"

definition cycleKey :: "Pair list \<Rightarrow> string" where
  "cycleKey cycle =
     fold (\<lambda>p key. key @ to_string (fst p) @ '','' @ to_string (snd p) @ '';'') cycle []"

text \<open>What one pair contributes to the key.\<close>

definition keyItem :: "Pair \<Rightarrow> string" where
  "keyItem p = to_string (fst p) @ '','' @ to_string (snd p) @ '';''"

record dedup_state =
  seen :: "string set"
  out_cyclesPairs :: "Pair list list"
  out_sequences :: "int list list"

definition dedupStep :: "Pair list \<Rightarrow> dedup_state \<Rightarrow> dedup_state" where
  "dedupStep cycle d =
     (let key = cycleKey cycle in
      if key \<notin> seen d then
        \<lparr> seen = insert key (seen d),
          out_cyclesPairs = out_cyclesPairs d @ [cycle],
          out_sequences = out_sequences d @ [map fst cycle] \<rparr>
      else d)"

subsection \<open>The enumerator and its caller\<close>

datatype error = InvalidModulus

text \<open>
  \<open>computeModCycles\<close> is a \<open>void\<close> function that appends to the two vectors it receives
  by reference; the model returns their new contents as \<open>(sequences, cyclesPairs)\<close>.
  The function contains no \<open>throw\<close>: each of its paths returns normally, which the
  model writes as \<open>Inr\<close>.
\<close>

definition computeModCycles ::
  "int \<Rightarrow> int list list \<Rightarrow> Pair list list \<Rightarrow> error + (int list list \<times> Pair list list)"
where
  "computeModCycles base sequences cyclesPairs =
     (if base \<le> 0 then Inr (sequences, cyclesPairs)
      else
        let d = fold dedupStep (rawCycles (scanAll base))
                  \<lparr> seen = {}, out_cyclesPairs = cyclesPairs, out_sequences = sequences \<rparr>
        in Inr (out_sequences d, out_cyclesPairs d))"

text \<open>
  \<open>main\<close> from the point where \<open>argv[1]\<close> has been parsed into \<open>base\<close>: a modulus
  \<open>\<le> 0\<close> prints the error message and returns exit status 1 (\<open>Inl InvalidModulus\<close>);
  otherwise the two empty vectors are filled and handed, with \<open>base\<close>, to \<open>outputJSON\<close>.
\<close>

definition main_body :: "int \<Rightarrow> error + (int \<times> int list list \<times> Pair list list)" where
  "main_body base =
     (if base \<le> 0 then Inl InvalidModulus
      else
        (case computeModCycles base [] [] of
           Inl e \<Rightarrow> Inl e
         | Inr (sequences, cyclesPairs) \<Rightarrow> Inr (base, sequences, cyclesPairs)))"

subsection \<open>Notions used to state the properties\<close>

text \<open>The state space \<open>[0,m)\<^sup>2\<close> and the starting pairs in the order of the two \<open>for\<close> loops.\<close>

definition states :: "int \<Rightarrow> Pair set" where
  "states m = {0..<m} \<times> {0..<m}"

definition startPairs :: "int \<Rightarrow> Pair list" where
  "startPairs m = concat (map (\<lambda>a0. map (\<lambda>b0. (a0, b0)) [0..m - 1]) [0..m - 1])"

text \<open>
  The moduli for which no sum of two components overflows \<open>int64\<close>, and those for which,
  moreover, the iteration cap does not wrap (\<open>2 * 3037000499\<^sup>2 + 1000 < 2 ^ 64\<close>, and
  \<open>3037000500\<close> is the first modulus at which it does).
\<close>

definition sumsFit :: "int \<Rightarrow> bool" where
  "sumsFit m \<longleftrightarrow> 0 < m \<and> m \<le> 2 ^ 62"

definition capFits :: "int \<Rightarrow> bool" where
  "capFits m \<longleftrightarrow> 0 < m \<and> m \<le> 3037000499"

text \<open>
  The first \<open>n\<close> states of the trajectory of \<open>s\<close>, and the fact that the trajectory
  returns to \<open>s\<close> after \<open>L\<close> steps without meeting any state twice before.
\<close>

definition trajectory :: "int \<Rightarrow> Pair \<Rightarrow> nat \<Rightarrow> Pair list" where
  "trajectory m s n = map (\<lambda>i. (nextState m ^^ i) s) [0..<n]"

definition closes :: "int \<Rightarrow> Pair \<Rightarrow> nat \<Rightarrow> bool" where
  "closes m s L \<longleftrightarrow> 0 < L \<and> (nextState m ^^ L) s = s \<and> distinct (trajectory m s L)"

text \<open>
  Written from the specification, not from the code: the orbit of a state is the state
  followed by its successive images under the transition, up to its first return; and a
  list with only the first occurrence of each element kept, in first-seen order.
\<close>

definition orbit :: "int \<Rightarrow> Pair \<Rightarrow> Pair list" where
  "orbit m s =
     s # takeWhile (\<lambda>x. x \<noteq> s) (map (\<lambda>i. (nextState m ^^ i) s) [1..<Suc (nat (m * m))])"

definition firstSeen :: "'a list \<Rightarrow> 'a list" where
  "firstSeen xs = fold (\<lambda>x acc. if x \<in> set acc then acc else acc @ [x]) xs []"




text \<open>
  The scan once more, keeping instead of the raw cycles the \<open>path\<close> of every traversal
  that is started (the C++ discards each path after flushing it into \<open>visited\<close>).
\<close>

definition pathStep :: "int \<Rightarrow> Pair \<Rightarrow> Pair set \<times> Pair list list \<Rightarrow> Pair set \<times> Pair list list" where
  "pathStep base key vp =
     (if key \<in> fst vp then vp
      else
        (case walk base (maxIterations base) key [] Map.empty 0 of
           (path, iterations, ex) \<Rightarrow> (fold insert path (fst vp), snd vp @ [path])))"


section \<open>Properties of the canonical rotation\<close>

lemma comparePairs_less: "comparePairs a b < 0 \<longleftrightarrow> a < b"
  by (cases a; cases b) (auto simp: comparePairs_def)

lemma findMin_fold:
  assumes "0 < j" "j \<le> length c"
  shows "let k = fold (\<lambda>i minIdx. if comparePairs (c ! i) (c ! minIdx) < 0 then i else minIdx) [1..<j] 0
         in k < j \<and> (\<forall>i<j. c ! k \<le> c ! i) \<and> (\<forall>i<k. c ! k < c ! i)"
  using assms
proof (induction j)
  case 0
  then show ?case by simp
next
  case (Suc j)
  show ?case
  proof (cases "j = 0")
    case True
    then show ?thesis by simp
  next
    case False
    then have j: "0 < j" "j \<le> length c" using Suc.prems by auto
    have up: "[1..<Suc j] = [1..<j] @ [j]" using j by simp
    from Suc.IH [OF j] show ?thesis
      unfolding up Let_def fold_append comp_def
      by (auto simp: comparePairs_less less_Suc_eq not_less intro: order.trans less_le_trans)
  qed
qed

lemma findMinCycleIndex_props:
  assumes "c \<noteq> []"
  shows "findMinCycleIndex c < length c"
    and "\<And>i. i < length c \<Longrightarrow> c ! findMinCycleIndex c \<le> c ! i"
    and "\<And>i. i < findMinCycleIndex c \<Longrightarrow> c ! findMinCycleIndex c < c ! i"
  using findMin_fold [of "length c" c] assms
  by (simp_all add: findMinCycleIndex_def Let_def)

lemma canonicalCycle_rotate: "canonicalCycle c = rotate (findMinCycleIndex c) c"
proof (cases "c = []")
  case True
  then show ?thesis by (simp add: canonicalCycle_def)
next
  case False
  show ?thesis
    by (rule nth_equalityI) (simp_all add: canonicalCycle_def False Let_def nth_rotate)
qed

text \<open>The index found is the only one below which nothing is as small and at which the least element sits.\<close>

lemma findMinCycleIndex_unique:
  assumes "k < length c" "\<And>i. i < length c \<Longrightarrow> c ! k \<le> c ! i" "\<And>i. i < k \<Longrightarrow> c ! k < c ! i"
  shows "findMinCycleIndex c = k"
proof -
  have ne: "c \<noteq> []" using assms(1) by auto
  let ?m = "findMinCycleIndex c"
  note p = findMinCycleIndex_props [OF ne]
  have "\<not> ?m < k"
  proof
    assume "?m < k"
    then have "c ! k < c ! ?m" by (rule assms(3))
    moreover have "c ! ?m \<le> c ! k" using p(2) assms(1) by blast
    ultimately show False by simp
  qed
  moreover have "\<not> k < ?m"
  proof
    assume "k < ?m"
    then have "c ! ?m < c ! k" by (rule p(3))
    moreover have "c ! k \<le> c ! ?m" using assms(2) p(1) by blast
    ultimately show False by simp
  qed
  ultimately show ?thesis by simp
qed

lemma findMinCycleIndex_canonical: "findMinCycleIndex (canonicalCycle c) = 0"
proof (cases "c = []")
  case True
  then show ?thesis by (simp add: canonicalCycle_def findMinCycleIndex_def)
next
  case False
  note p = findMinCycleIndex_props [OF False]
  let ?k = "findMinCycleIndex c"
  let ?r = "rotate ?k c"
  have len: "0 < length c" using False by simp
  have "findMinCycleIndex ?r = 0"
  proof (rule findMinCycleIndex_unique)
    show "0 < length ?r" using len by simp
  next
    fix i assume "i < length ?r"
    then have i: "i < length c" by simp
    have "?r ! 0 = c ! ?k" using len p(1) by (simp add: nth_rotate)
    moreover have "?r ! i = c ! ((?k + i) mod length c)" using i by (simp add: nth_rotate)
    moreover have "c ! ?k \<le> c ! ((?k + i) mod length c)" using len by (intro p(2)) simp
    ultimately show "?r ! 0 \<le> ?r ! i" by simp
  next
    fix i :: nat assume "i < 0" then show "?r ! 0 < ?r ! i" by simp
  qed
  then show ?thesis by (simp add: canonicalCycle_rotate)
qed

lemma canonicalCycle_idem: "canonicalCycle (canonicalCycle c) = canonicalCycle c"
  by (subst canonicalCycle_rotate) (simp add: findMinCycleIndex_canonical)

lemma set_canonicalCycle: "set (canonicalCycle c) = set c"
  by (simp add: canonicalCycle_rotate)

lemma length_canonicalCycle: "length (canonicalCycle c) = length c"
  by (simp add: canonicalCycle_rotate)



text \<open>Rotation invariance, when the least pair sits at one position only.\<close>

lemma canonicalCycle_rotate_invariant:
  assumes once: "\<And>i. i < length c \<Longrightarrow> c ! i = c ! findMinCycleIndex c \<Longrightarrow> i = findMinCycleIndex c"
  shows "canonicalCycle (rotate n c) = canonicalCycle c"
proof (cases "c = []")
  case True
  then show ?thesis by (simp add: canonicalCycle_def)
next
  case False
  let ?k = "findMinCycleIndex c"
  let ?L = "length c"
  let ?r = "rotate n c"
  let ?k' = "findMinCycleIndex ?r"
  have len: "0 < ?L" using False by simp
  have rne: "?r \<noteq> []" using False by simp
  note p = findMinCycleIndex_props [OF False]
  note q = findMinCycleIndex_props [OF rne]
  have k': "?k' < ?L" using q(1) by simp
  let ?j = "(n + ?k') mod ?L"
  have j: "?j < ?L" using len by simp
  have rk': "?r ! ?k' = c ! ?j" using k' by (simp add: nth_rotate)
  obtain i where i: "i < ?L" "(n + i) mod ?L = ?k"
  proof -
    have "(n + (?k + (?L - n mod ?L))) mod ?L = (?k + (n mod ?L + (?L - n mod ?L))) mod ?L"
      by (metis (no_types, opaque_lifting) add.assoc add.commute mod_add_left_eq)
    also have "\<dots> = ?k mod ?L" using len by (simp add: less_imp_le_nat)
    also have "\<dots> = ?k" using p(1) by simp
    finally have "(n + ((?k + (?L - n mod ?L)) mod ?L)) mod ?L = ?k"
      by (simp add: mod_add_right_eq)
    moreover have "(?k + (?L - n mod ?L)) mod ?L < ?L" using len by simp
    ultimately show ?thesis using that by blast
  qed
  have "?r ! ?k' \<le> ?r ! i" using q(2) i(1) by simp
  then have "c ! ?j \<le> c ! ?k" using rk' i by (simp add: nth_rotate)
  moreover have "c ! ?k \<le> c ! ?j" using p(2) j by blast
  ultimately have "c ! ?j = c ! ?k" by simp
  then have jk: "?j = ?k" using once j by blast
  have "canonicalCycle ?r = rotate (?k' + n) c"
    by (simp add: canonicalCycle_rotate rotate_rotate)
  also have "\<dots> = rotate ((?k' + n) mod ?L) c" by (rule rotate_conv_mod)
  also have "\<dots> = rotate ?k c" using jk by (simp add: add.commute)
  finally show ?thesis by (simp add: canonicalCycle_rotate)
qed

lemma canonicalCycle_rotate_distinct:
  assumes "distinct c"
  shows "canonicalCycle (rotate n c) = canonicalCycle c"
proof (cases "c = []")
  case True
  then show ?thesis by (simp add: canonicalCycle_def)
next
  case False
  show ?thesis
  proof (rule canonicalCycle_rotate_invariant)
    fix i assume "i < length c" "c ! i = c ! findMinCycleIndex c"
    then show "i = findMinCycleIndex c"
      using assms findMinCycleIndex_props(1) [OF False] by (simp add: nth_eq_iff_index_eq)
  qed
qed

lemma count_list_one_index:
  "count_list c x = 1 \<Longrightarrow> i < length c \<Longrightarrow> j < length c \<Longrightarrow> c ! i = x \<Longrightarrow> c ! j = x \<Longrightarrow> i = j"
proof (induction c arbitrary: i j)
  case Nil
  then show ?case by simp
next
  case (Cons y ys)
  show ?case
  proof (cases "y = x")
    case True
    then have "count_list ys x = 0" using Cons.prems(1) by simp
    then have notin: "x \<notin> set ys" by (simp add: count_list_0_iff)
    have "i = 0"
    proof (rule ccontr)
      assume "i \<noteq> 0"
      then have "ys ! (i - 1) = x" "i - 1 < length ys" using Cons.prems(2,4) by (auto simp: nth_Cons')
      then show False using notin nth_mem by blast
    qed
    moreover have "j = 0"
    proof (rule ccontr)
      assume "j \<noteq> 0"
      then have "ys ! (j - 1) = x" "j - 1 < length ys" using Cons.prems(3,5) by (auto simp: nth_Cons')
      then show False using notin nth_mem by blast
    qed
    ultimately show ?thesis by simp
  next
    case False
    then have c: "count_list ys x = 1" using Cons.prems(1) by simp
    have i: "i \<noteq> 0" using False Cons.prems(4) by (cases i) auto
    have j: "j \<noteq> 0" using False Cons.prems(5) by (cases j) auto
    have "i - 1 = j - 1"
      using Cons.IH [OF c, of "i - 1" "j - 1"] Cons.prems(2-5) i j by (simp add: nth_Cons')
    then show ?thesis using i j by simp
  qed
qed

section \<open>The transition and the traversal loop\<close>

lemma sumsFit_pos: "sumsFit m \<Longrightarrow> 0 < m"
  by (simp add: sumsFit_def)

lemma capFits_pos: "capFits m \<Longrightarrow> 0 < m"
  by (simp add: capFits_def)

lemma capFits_sums: "capFits m \<Longrightarrow> sumsFit m"
  by (simp add: capFits_def sumsFit_def)

lemma wrap64_id: "- (2 ^ 63) \<le> x \<Longrightarrow> x < 2 ^ 63 \<Longrightarrow> wrap64 x = x"
  by (simp add: wrap64_def)

lemma cmod_nonneg: "0 \<le> a \<Longrightarrow> 0 < b \<Longrightarrow> cmod a b = a mod b"
  by (simp add: cmod_def)

text \<open>While no sum overflows, the transition is the mathematical one.\<close>

lemma nextState_plain:
  assumes "sumsFit m" "s \<in> states m"
  shows "nextState m s = (snd s, (fst s + snd s) mod m)"
proof -
  have r: "0 \<le> fst s" "fst s < m" "0 \<le> snd s" "snd s < m"
    using assms(2) by (auto simp: states_def)
  have "m \<le> 2 ^ 62" "0 < m" using assms(1) by (simp_all add: sumsFit_def)
  then have "0 \<le> fst s + snd s" "fst s + snd s < 2 ^ 63" using r by simp_all
  then have "wrap64 (fst s + snd s) = fst s + snd s" by (simp add: wrap64_id)
  then show ?thesis using \<open>0 \<le> fst s + snd s\<close> \<open>0 < m\<close> by (simp add: nextState_def cmod_nonneg)
qed

lemma nextState_in_states:
  assumes "sumsFit m" "s \<in> states m"
  shows "nextState m s \<in> states m"
proof -
  have "snd s \<in> {0..<m}" using assms(2) by (auto simp: states_def)
  moreover have "(fst s + snd s) mod m \<in> {0..<m}" using sumsFit_pos [OF assms(1)] by simp
  ultimately show ?thesis by (simp add: nextState_plain [OF assms] states_def)
qed

lemma nextState_inj:
  assumes "sumsFit m" "s \<in> states m" "t \<in> states m" "nextState m s = nextState m t"
  shows "s = t"
proof -
  obtain a b where s: "s = (a, b)" by (cases s)
  obtain c d where t: "t = (c, d)" by (cases t)
  have r: "0 \<le> a" "a < m" "0 \<le> b" "b < m" "0 \<le> c" "c < m" "0 \<le> d" "d < m"
    using assms(2,3) by (auto simp: states_def s t)
  have ns: "nextState m s = (b, (a + b) mod m)"
    using nextState_plain [OF assms(1,2)] by (simp add: s)
  have nt: "nextState m t = (d, (c + d) mod m)"
    using nextState_plain [OF assms(1,3)] by (simp add: t)
  have "(b, (a + b) mod m) = (d, (c + d) mod m)"
    using assms(4) unfolding ns nt .
  then have bd: "b = d" and e: "(a + b) mod m = (c + d) mod m"
    using prod.inject [of b "(a + b) mod m" d "(c + d) mod m"] by blast+
  have "(a + b - b) mod m = (c + b - b) mod m"
    using e bd by (metis mod_diff_left_eq)
  then have "a mod m = c mod m" by simp
  then have "a = c" using r by simp
  then show ?thesis using bd s t by simp
qed

lemma funpow_in_states:
  assumes "sumsFit m" "s \<in> states m"
  shows "(nextState m ^^ n) s \<in> states m"
  by (induction n) (simp_all add: assms nextState_in_states)

lemma finite_states: "finite (states m)"
  by (simp add: states_def)

lemma card_states: "0 \<le> m \<Longrightarrow> card (states m) = nat (m * m)"
  by (simp add: states_def card_cartesian_product nat_mult_distrib)

lemma length_trajectory [simp]: "length (trajectory m s n) = n"
  by (simp add: trajectory_def)

lemma nth_trajectory [simp]: "i < n \<Longrightarrow> trajectory m s n ! i = (nextState m ^^ i) s"
  by (simp add: trajectory_def)

lemma trajectory_Suc: "trajectory m s (Suc n) = trajectory m s n @ [(nextState m ^^ n) s]"
  by (simp add: trajectory_def)

lemma set_trajectory_states:
  assumes "sumsFit m" "s \<in> states m"
  shows "set (trajectory m s n) \<subseteq> states m"
  using funpow_in_states [OF assms] by (auto simp: trajectory_def)

lemma distinct_trajectory_length:
  assumes "sumsFit m" "s \<in> states m" "distinct (trajectory m s n)"
  shows "n \<le> nat (m * m)"
proof -
  have "n = card (set (trajectory m s n))"
    using assms(3) distinct_card by fastforce
  also have "\<dots> \<le> card (states m)"
    by (rule card_mono [OF finite_states set_trajectory_states [OF assms(1,2)]])
  finally show ?thesis using sumsFit_pos [OF assms(1)] by (simp add: card_states)
qed

lemma walk_invariant:
  assumes m: "sumsFit m" and s: "s \<in> states m" and cap: "nat (m * m) < cap"
  shows "path = trajectory m s k \<Longrightarrow> distinct path \<Longrightarrow> current = (nextState m ^^ k) s \<Longrightarrow>
         iterations = k \<Longrightarrow> (\<And>p i. seenIndex p = Some i \<Longrightarrow> i < k \<and> path ! i = p) \<Longrightarrow>
         (\<And>p. p \<in> set path \<Longrightarrow> seenIndex p \<noteq> None) \<Longrightarrow>
         \<exists>L. closes m s L \<and> k \<le> L \<and>
           walk m cap current path seenIndex iterations
             = (trajectory m s L, L, CycleFound (trajectory m s L))"
proof (induction "nat (m * m) - k" arbitrary: k path current seenIndex iterations rule: less_induct)
  case less
  note path = \<open>path = trajectory m s k\<close> and dist = \<open>distinct path\<close>
   and cur = \<open>current = (nextState m ^^ k) s\<close> and its = \<open>iterations = k\<close>
   and seen1 = less.prems(5) and seen2 = less.prems(6)
  have kle: "k \<le> nat (m * m)"
    using distinct_trajectory_length [OF m s] dist path by simp
  then have lt: "iterations < cap" using cap its by simp
  show ?case
  proof (cases "seenIndex current")
    case (Some start)
    have st: "start < k" "path ! start = current" using seen1 [OF Some] by simp_all
    have eq: "(nextState m ^^ start) s = (nextState m ^^ k) s"
      using st cur path by simp
    have "start = 0"
    proof (rule ccontr)
      assume "start \<noteq> 0"
      then obtain a where a: "start = Suc a" by (cases start) auto
      obtain b where b: "k = Suc b" using st(1) by (cases k) auto
      have "nextState m ((nextState m ^^ a) s) = nextState m ((nextState m ^^ b) s)"
        using eq a b by simp
      then have "(nextState m ^^ a) s = (nextState m ^^ b) s"
        using nextState_inj [OF m funpow_in_states [OF m s] funpow_in_states [OF m s]] by blast
      moreover have ab: "a < length path" "b < length path" using path a b st(1) by simp_all
      ultimately have "path ! a = path ! b" using path by simp
      then have "a = b" using nth_eq_iff_index_eq [OF dist ab] by simp
      then show False using a b st(1) by simp
    qed
    then have "closes m s k" using eq st(1) dist path by (simp add: closes_def)
    moreover have "walk m cap current path seenIndex iterations = (path, k, CycleFound path)"
      using lt Some \<open>start = 0\<close> its by (subst walk.simps) simp
    ultimately show ?thesis using path by blast
  next
    case None
    then have notin: "current \<notin> set path" using seen2 by blast
    let ?path = "path @ [current]"
    let ?seen = "seenIndex(current \<mapsto> length path)"
    have p': "?path = trajectory m s (Suc k)" using path cur by (simp add: trajectory_Suc)
    have d': "distinct ?path" using dist notin by simp
    have "Suc k \<le> nat (m * m)"
      using distinct_trajectory_length [OF m s, of "Suc k"] d' p' by simp
    then have dec: "nat (m * m) - Suc k < nat (m * m) - k" by simp
    have c': "nextState m current = (nextState m ^^ Suc k) s" using cur by simp
    have len: "length path = k" using path by simp
    have s1: "\<And>p i. ?seen p = Some i \<Longrightarrow> i < Suc k \<and> ?path ! i = p"
    proof -
      fix p i assume h: "?seen p = Some i"
      show "i < Suc k \<and> ?path ! i = p"
      proof (cases "p = current")
        case True
        then show ?thesis using h len by (auto simp: nth_append)
      next
        case False
        then have "seenIndex p = Some i" using h by simp
        then show ?thesis using seen1 len by (simp add: nth_append less_Suc_eq)
      qed
    qed
    have s2: "\<And>p. p \<in> set ?path \<Longrightarrow> ?seen p \<noteq> None"
    proof -
      fix p assume "p \<in> set ?path"
      then have "p = current \<or> p \<in> set path" by auto
      then show "?seen p \<noteq> None" using seen2 by (cases "p = current") simp_all
    qed
    have "\<exists>L. closes m s L \<and> Suc k \<le> L \<and>
           walk m cap (nextState m current) ?path ?seen (Suc k)
             = (trajectory m s L, L, CycleFound (trajectory m s L))"
      by (rule less.hyps [OF dec p' d' c' refl s1 s2])
    then obtain L where L: "closes m s L" "Suc k \<le> L"
      "walk m cap (nextState m current) ?path ?seen (Suc iterations)
         = (trajectory m s L, L, CycleFound (trajectory m s L))"
      unfolding its by blast
    have "walk m cap current path seenIndex iterations
            = walk m cap (nextState m current) ?path ?seen (Suc iterations)"
      using lt None by (subst walk.simps) simp
    then have "walk m cap current path seenIndex iterations
                 = (trajectory m s L, L, CycleFound (trajectory m s L))"
      using L(3) by (rule trans)
    moreover have "k \<le> L" using L(2) by simp
    ultimately show ?thesis using L(1) by blast
  qed
qed

lemma walk_from_start:
  assumes "sumsFit m" "s \<in> states m" "nat (m * m) < cap"
  shows "\<exists>L. closes m s L \<and>
           walk m cap s [] Map.empty 0 = (trajectory m s L, L, CycleFound (trajectory m s L))"
  using walk_invariant [OF assms, of "[]" 0 s 0 Map.empty] by (auto simp: trajectory_def)

text \<open>While the cap does not wrap it exceeds the number of states.\<close>

lemma maxIterations_plain:
  assumes "capFits m"
  shows "maxIterations m = nat (m * m * 2 + 1000)"
proof -
  have m: "0 < m" "m \<le> 3037000499" using assms by (simp_all add: capFits_def)
  have "m * m \<le> 3037000499 * 3037000499" using m by (intro mult_mono) simp_all
  then have "m * m * 2 + 1000 < 2 ^ 64" by simp
  moreover have "0 \<le> m * m * 2 + 1000" by simp
  ultimately have "(m * m * 2 + 1000) mod 2 ^ 64 = m * m * 2 + 1000" by simp
  then show ?thesis by (simp add: maxIterations_def)
qed

lemma maxIterations_gt: "capFits m \<Longrightarrow> nat (m * m) < maxIterations m"
proof -
  assume c: "capFits m"
  have "0 \<le> m * m" by simp
  then have "nat (m * m) < nat (m * m * 2 + 1000)" by arith
  then show ?thesis unfolding maxIterations_plain [OF c] .
qed

lemma closes_length: "sumsFit m \<Longrightarrow> s \<in> states m \<Longrightarrow> closes m s L \<Longrightarrow> L \<le> nat (m * m)"
  using distinct_trajectory_length by (simp add: closes_def)

section \<open>Orbits of the transition\<close>

lemma closes_funpow_mult:
  assumes "closes m s L"
  shows "(nextState m ^^ (q * L)) s = s"
proof (induction q)
  case 0
  then show ?case by simp
next
  case (Suc q)
  have "Suc q * L = q * L + L" by simp
  then have "(nextState m ^^ (Suc q * L)) s = (nextState m ^^ (q * L)) ((nextState m ^^ L) s)"
    by (simp only: funpow_add o_apply)
  then show ?case using Suc assms by (simp add: closes_def)
qed

lemma closes_funpow_mod:
  assumes "closes m s L"
  shows "(nextState m ^^ n) s = (nextState m ^^ (n mod L)) s"
proof -
  have "n = n mod L + (n div L) * L" by simp
  then have "(nextState m ^^ n) s = (nextState m ^^ (n mod L + (n div L) * L)) s" by simp
  also have "\<dots> = (nextState m ^^ (n mod L)) ((nextState m ^^ ((n div L) * L)) s)"
    by (simp only: funpow_add o_apply)
  finally show ?thesis using closes_funpow_mult [OF assms] by simp
qed

lemma orbit_trajectory:
  assumes m: "capFits m" and s: "s \<in> states m" and c: "closes m s L"
  shows "orbit m s = trajectory m s L"
proof -
  let ?f = "\<lambda>i. (nextState m ^^ i) s"
  let ?N = "nat (m * m)"
  have L: "0 < L" "L \<le> ?N" using c closes_length [OF capFits_sums [OF m] s c] by (simp_all add: closes_def)
  have ret: "?f L = s" using c by (simp add: closes_def)
  have dist: "distinct (trajectory m s L)" using c by (simp add: closes_def)
  have ne: "\<And>i. 0 < i \<Longrightarrow> i < L \<Longrightarrow> ?f i \<noteq> s"
  proof -
    fix i assume i: "0 < i" "i < L"
    have "trajectory m s L ! i \<noteq> trajectory m s L ! 0"
      using nth_eq_iff_index_eq [OF dist, of i 0] i L(1) by simp
    then show "?f i \<noteq> s" using i L(1) by simp
  qed
  have split: "[1..<Suc ?N] = [1..<L] @ L # [Suc L..<Suc ?N]"
  proof -
    have "[1..<Suc ?N] = [1..<L] @ [L..<Suc ?N]"
      using L by (metis Suc_leI le_Suc_eq le_SucI upt_add_eq_append le_add_diff_inverse One_nat_def)
    moreover have "[L..<Suc ?N] = L # [Suc L..<Suc ?N]"
      using L by (simp add: upt_conv_Cons)
    ultimately show ?thesis by simp
  qed
  have all: "\<And>x. x \<in> set (map ?f [1..<L]) \<Longrightarrow> x \<noteq> s"
  proof -
    fix x assume "x \<in> set (map ?f [1..<L])"
    then obtain i where "x = ?f i" "0 < i" "i < L" by auto
    then show "x \<noteq> s" using ne by simp
  qed
  have "takeWhile (\<lambda>x. x \<noteq> s) (map ?f [1..<L] @ ?f L # map ?f [Suc L..<Suc ?N])
          = map ?f [1..<L] @ takeWhile (\<lambda>x. x \<noteq> s) (?f L # map ?f [Suc L..<Suc ?N])"
    by (rule takeWhile_append2) (rule all)
  then have "takeWhile (\<lambda>x. x \<noteq> s) (map ?f [1..<Suc ?N]) = map ?f [1..<L]"
    unfolding split map_append list.map using ret by simp
  then have "orbit m s = s # map ?f [1..<L]" by (simp add: orbit_def)
  also have "\<dots> = map ?f [0..<L]" using L(1) by (simp add: upt_conv_Cons)
  finally show ?thesis by (simp add: trajectory_def)
qed


lemma closes_shift:
  assumes c: "closes m p L" and k: "k < L"
  shows "trajectory m ((nextState m ^^ k) p) L = rotate k (trajectory m p L)"
    and "closes m ((nextState m ^^ k) p) L"
proof -
  let ?x = "(nextState m ^^ k) p"
  show rot: "trajectory m ?x L = rotate k (trajectory m p L)"
  proof (rule nth_equalityI)
    show "length (trajectory m ?x L) = length (rotate k (trajectory m p L))" by simp
  next
    fix i assume "i < length (trajectory m ?x L)"
    then have i: "i < L" by simp
    have "trajectory m ?x L ! i = (nextState m ^^ (i + k)) p"
      using i by (simp add: funpow_add)
    also have "\<dots> = (nextState m ^^ ((k + i) mod L)) p"
      using closes_funpow_mod [OF c, of "i + k"] by (simp add: add.commute)
    also have "\<dots> = rotate k (trajectory m p L) ! i"
      using i k by (simp add: nth_rotate)
    finally show "trajectory m ?x L ! i = rotate k (trajectory m p L) ! i" .
  qed
  have "(nextState m ^^ L) ?x = (nextState m ^^ (k + L)) p"
    by (simp add: funpow_add add.commute)
  also have "\<dots> = (nextState m ^^ k) ((nextState m ^^ L) p)"
    by (simp only: funpow_add o_apply)
  finally have "(nextState m ^^ L) ?x = ?x" using c by (simp add: closes_def)
  then show "closes m ?x L" using c rot by (simp add: closes_def)
qed

lemma exists_closes:
  assumes "capFits m" "s \<in> states m"
  shows "\<exists>L. closes m s L"
  using walk_from_start [OF capFits_sums [OF assms(1)] assms(2) maxIterations_gt [OF assms(1)]] by blast

lemma orbit_props:
  assumes m: "capFits m" and s: "s \<in> states m"
  shows "s \<in> set (orbit m s)" and "distinct (orbit m s)" and "orbit m s \<noteq> []"
    and "set (orbit m s) \<subseteq> states m"
proof -
  obtain L where c: "closes m s L" using exists_closes [OF m s] by blast
  have o: "orbit m s = trajectory m s L" by (rule orbit_trajectory [OF m s c])
  show "s \<in> set (orbit m s)" by (simp add: orbit_def)
  show "distinct (orbit m s)" using c o by (simp add: closes_def)
  show "orbit m s \<noteq> []" by (simp add: orbit_def)
  show "set (orbit m s) \<subseteq> states m" using o set_trajectory_states [OF capFits_sums [OF m] s] by simp
qed

lemma orbit_member:
  assumes m: "capFits m" and p: "p \<in> states m" and x: "x \<in> set (orbit m p)"
  shows "\<exists>k. orbit m x = rotate k (orbit m p)"
proof -
  obtain L where c: "closes m p L" using exists_closes [OF m p] by blast
  have o: "orbit m p = trajectory m p L" by (rule orbit_trajectory [OF m p c])
  obtain k where k: "k < L" "x = (nextState m ^^ k) p"
    using x unfolding o trajectory_def by auto
  have xs: "x \<in> states m" using k funpow_in_states [OF capFits_sums [OF m] p] by simp
  have "orbit m x = trajectory m x L"
    using orbit_trajectory [OF m xs] closes_shift(2) [OF c k(1)] k(2) by simp
  then have "orbit m x = rotate k (orbit m p)"
    using closes_shift(1) [OF c k(1)] k(2) o by simp
  then show ?thesis ..
qed

lemma orbit_member_canonical:
  assumes "capFits m" "p \<in> states m" "x \<in> set (orbit m p)"
  shows "canonicalCycle (orbit m x) = canonicalCycle (orbit m p)"
    and "set (orbit m x) = set (orbit m p)"
proof -
  obtain k where k: "orbit m x = rotate k (orbit m p)"
    using orbit_member [OF assms] by blast
  show "canonicalCycle (orbit m x) = canonicalCycle (orbit m p)"
    unfolding k by (rule canonicalCycle_rotate_distinct) (rule orbit_props(2) [OF assms(1,2)])
  show "set (orbit m x) = set (orbit m p)" unfolding k by simp
qed

lemma walk_orbit:
  assumes m: "capFits m" and s: "s \<in> states m"
  shows "walk m (maxIterations m) s [] Map.empty 0
           = (orbit m s, length (orbit m s), CycleFound (orbit m s))"
proof -
  obtain L where L: "closes m s L"
    "walk m (maxIterations m) s [] Map.empty 0 = (trajectory m s L, L, CycleFound (trajectory m s L))"
    using walk_from_start [OF capFits_sums [OF m] s maxIterations_gt [OF m]] by blast
  show ?thesis using L(2) orbit_trajectory [OF m s L(1)] by simp
qed


section \<open>The scan over the starting pairs\<close>

subsection \<open>First occurrences\<close>

lemma firstSeen_snoc:
  "firstSeen (xs @ [x]) = (if x \<in> set (firstSeen xs) then firstSeen xs else firstSeen xs @ [x])"
  by (simp add: firstSeen_def)

lemma set_firstSeen: "set (firstSeen xs) = set xs"
  by (induction xs rule: rev_induct) (auto simp: firstSeen_snoc, simp add: firstSeen_def)

lemma distinct_firstSeen: "distinct (firstSeen xs)"
  by (induction xs rule: rev_induct) (auto simp: firstSeen_snoc, simp add: firstSeen_def)

lemma firstSeen_distinct: "distinct xs \<Longrightarrow> firstSeen xs = xs"
proof (induction xs rule: rev_induct)
  case Nil
  then show ?case by (simp add: firstSeen_def)
next
  case (snoc x xs)
  then show ?case by (simp add: firstSeen_snoc set_firstSeen)
qed

lemma firstSeen_idem: "firstSeen (firstSeen xs) = firstSeen xs"
  by (rule firstSeen_distinct) (rule distinct_firstSeen)

subsection \<open>The invariant of the scan\<close>

lemma fold_nested:
  "fold (\<lambda>a. fold (\<lambda>b. f (a, b)) bs) as st = fold f (concat (map (\<lambda>a. map (\<lambda>b. (a, b)) bs) as)) st"
  by (induction as arbitrary: st) (simp_all add: fold_map comp_def)

lemma scanAll_fold:
  "scanAll m = fold (startStep m) (startPairs m) \<lparr> visited = {}, rawCycles = [] \<rparr>"
  by (simp add: scanAll_def startPairs_def fold_nested)

lemma set_startPairs: "set (startPairs m) = states m"
  by (auto simp: startPairs_def states_def)

lemma startStep_orbit:
  assumes "capFits m" "s \<in> states m"
  shows "startStep m s st =
           (if s \<in> visited st then st
            else \<lparr> visited = visited st \<union> set (orbit m s),
                   rawCycles = rawCycles st @ [canonicalCycle (orbit m s)] \<rparr>)"
  using orbit_props(3) [OF assms]
  by (simp add: startStep_def walk_orbit [OF assms] union_set_fold [symmetric] Un_commute)

lemma scan_invariant:
  assumes m: "capFits m" and ps: "set ps \<subseteq> states m"
  shows "rawCycles (fold (startStep m) ps \<lparr> visited = {}, rawCycles = [] \<rparr>)
           = firstSeen (map (\<lambda>s. canonicalCycle (orbit m s)) ps)
       \<and> visited (fold (startStep m) ps \<lparr> visited = {}, rawCycles = [] \<rparr>)
           = (\<Union>s\<in>set ps. set (orbit m s))"
  using ps
proof (induction ps rule: rev_induct)
  case Nil
  then show ?case by (simp add: firstSeen_def)
next
  case (snoc s ps)
  let ?st = "fold (startStep m) ps \<lparr> visited = {}, rawCycles = [] \<rparr>"
  let ?c = "\<lambda>s. canonicalCycle (orbit m s)"
  have s: "s \<in> states m" and ps: "set ps \<subseteq> states m" using snoc.prems by auto
  have raw: "rawCycles ?st = firstSeen (map ?c ps)"
    and vis: "visited ?st = (\<Union>s\<in>set ps. set (orbit m s))"
    using snoc.IH [OF ps] by simp_all
  show ?case
  proof (cases "s \<in> visited ?st")
    case True
    then obtain p where p: "p \<in> set ps" "s \<in> set (orbit m p)" using vis by auto
    have pst: "p \<in> states m" using p(1) ps by auto
    have "?c s = ?c p" and so: "set (orbit m s) = set (orbit m p)"
      using orbit_member_canonical [OF m pst p(2)] by simp_all
    then have "?c s \<in> set (firstSeen (map ?c ps))" using p(1) by (simp add: set_firstSeen)
    then have "firstSeen (map ?c (ps @ [s])) = firstSeen (map ?c ps)"
      by (simp add: firstSeen_snoc)
    moreover have "(\<Union>s\<in>set (ps @ [s]). set (orbit m s)) = (\<Union>s\<in>set ps. set (orbit m s))"
      using so p(1) by auto
    ultimately show ?thesis using True raw vis by (simp add: startStep_orbit [OF m s])
  next
    case False
    have "?c s \<notin> set (map ?c ps)"
    proof
      assume "?c s \<in> set (map ?c ps)"
      then obtain p where p: "p \<in> set ps" "?c s = ?c p" by auto
      have "set (orbit m s) = set (orbit m p)"
        using arg_cong [OF p(2), of set] by (simp add: set_canonicalCycle)
      then have "s \<in> set (orbit m p)" using orbit_props(1) [OF m s] by simp
      then show False using False vis p(1) by auto
    qed
    then have "firstSeen (map ?c (ps @ [s])) = firstSeen (map ?c ps) @ [?c s]"
      by (simp add: firstSeen_snoc set_firstSeen)
    moreover have "(\<Union>s\<in>set (ps @ [s]). set (orbit m s)) = visited ?st \<union> set (orbit m s)"
      using vis by auto
    ultimately show ?thesis using False raw by (simp add: startStep_orbit [OF m s])
  qed
qed

section \<open>The deduplication\<close>

subsection \<open>The string keys\<close>

lemma digit_char_in: "d < 10 \<Longrightarrow> digit_char d \<in> set ''0123456789''"
  unfolding digit_char_def by (rule nth_mem) simp

lemma digit_char_inj:
  assumes "d < 10" "e < 10" "digit_char d = digit_char e"
  shows "d = e"
proof -
  have "distinct ''0123456789''" by simp
  then show ?thesis
    using assms nth_eq_iff_index_eq [of "''0123456789''" d e] unfolding digit_char_def by simp
qed

lemma to_string_nat_ne: "to_string_nat n \<noteq> []"
  by (subst to_string_nat.simps) simp

lemma to_string_nat_chars: "set (to_string_nat n) \<subseteq> set ''0123456789''"
proof (induction n rule: to_string_nat.induct)
  case (1 n)
  show ?case
  proof (cases "n < 10")
    case True
    then show ?thesis using digit_char_in [of n] by (subst to_string_nat.simps) simp
  next
    case False
    have "digit_char (n mod 10) \<in> set ''0123456789''" by (rule digit_char_in) simp
    then show ?thesis using 1 False by (subst to_string_nat.simps) simp
  qed
qed

lemma to_string_nat_small: "n < 10 \<Longrightarrow> to_string_nat n = [digit_char n]"
  by (subst to_string_nat.simps) simp

lemma to_string_nat_large:
  "\<not> n < 10 \<Longrightarrow> to_string_nat n = to_string_nat (n div 10) @ [digit_char (n mod 10)]"
  by (subst to_string_nat.simps) simp

lemma to_string_nat_inj: "to_string_nat n = to_string_nat k \<Longrightarrow> n = k"
proof (induction n arbitrary: k rule: to_string_nat.induct)
  case (1 n)
  note eq = \<open>to_string_nat n = to_string_nat k\<close>
  show ?case
  proof (cases "n < 10")
    case n: True
    show ?thesis
    proof (cases "k < 10")
      case True
      have "[digit_char n] = [digit_char k]"
        using eq unfolding to_string_nat_small [OF n] to_string_nat_small [OF True] .
      then show ?thesis using digit_char_inj [OF n True] by simp
    next
      case False
      have "[digit_char n] = to_string_nat (k div 10) @ [digit_char (k mod 10)]"
        using eq unfolding to_string_nat_small [OF n] to_string_nat_large [OF False] .
      then have "to_string_nat (k div 10) = []" by simp
      then show ?thesis using to_string_nat_ne by blast
    qed
  next
    case n: False
    show ?thesis
    proof (cases "k < 10")
      case True
      have "to_string_nat (n div 10) @ [digit_char (n mod 10)] = [digit_char k]"
        using eq unfolding to_string_nat_large [OF n] to_string_nat_small [OF True] .
      then have "to_string_nat (n div 10) = []" by simp
      then show ?thesis using to_string_nat_ne by blast
    next
      case False
      have "to_string_nat (n div 10) @ [digit_char (n mod 10)]
              = to_string_nat (k div 10) @ [digit_char (k mod 10)]"
        using eq unfolding to_string_nat_large [OF n] to_string_nat_large [OF False] .
      then have e: "to_string_nat (n div 10) = to_string_nat (k div 10)"
        "digit_char (n mod 10) = digit_char (k mod 10)"
        by simp_all
      have d: "n div 10 = k div 10" using "1.IH" [OF n e(1)] .
      have r: "n mod 10 = k mod 10" using digit_char_inj [OF _ _ e(2)] by simp
      have "n = 10 * (n div 10) + n mod 10" by simp
      also have "\<dots> = 10 * (k div 10) + k mod 10" unfolding d r ..
      also have "\<dots> = k" by simp
      finally show ?thesis .
    qed
  qed
qed

lemma to_string_chars: "set (to_string i) \<subseteq> set ''-0123456789''"
proof (cases "i < 0")
  case True
  then show ?thesis
    using to_string_nat_chars [of "nat (- i)"] by (simp add: to_string_def subset_insertI2)
next
  case False
  then show ?thesis
    using to_string_nat_chars [of "nat i"] by (simp add: to_string_def subset_insertI2)
qed

lemma to_string_inj: "to_string i = to_string j \<Longrightarrow> i = j"
proof -
  assume e: "to_string i = to_string j"
  have nd: "\<And>n. hd (to_string_nat n) \<noteq> CHR ''-''"
  proof -
    fix n
    have "hd (to_string_nat n) \<in> set (to_string_nat n)" using to_string_nat_ne [of n] by simp
    then have "hd (to_string_nat n) \<in> set ''0123456789''" using to_string_nat_chars [of n] by blast
    moreover have "CHR ''-'' \<notin> set ''0123456789''" by simp
    ultimately show "hd (to_string_nat n) \<noteq> CHR ''-''" by metis
  qed
  show "i = j"
  proof (cases "i < 0")
    case i: True
    show ?thesis
    proof (cases "j < 0")
      case True
      then have "nat (- i) = nat (- j)"
        using e i to_string_nat_inj [of "nat (- i)" "nat (- j)"] by (simp add: to_string_def)
      then show ?thesis using i True by simp
    next
      case False
      then have "CHR ''-'' # to_string_nat (nat (- i)) = to_string_nat (nat j)"
        using e i by (simp add: to_string_def)
      then have "hd (to_string_nat (nat j)) = CHR ''-''" using list.sel(1) by metis
      then show ?thesis using nd by blast
    qed
  next
    case i: False
    show ?thesis
    proof (cases "j < 0")
      case True
      then have "to_string_nat (nat i) = CHR ''-'' # to_string_nat (nat (- j))"
        using e i by (simp add: to_string_def)
      then have "hd (to_string_nat (nat i)) = CHR ''-''" by simp
      then show ?thesis using nd by blast
    next
      case False
      then have "nat i = nat j"
        using e i to_string_nat_inj [of "nat i" "nat j"] by (simp add: to_string_def)
      then show ?thesis using i False by simp
    qed
  qed
qed

lemma cycleKey_concat: "fold (\<lambda>p key. key @ to_string (fst p) @ '','' @ to_string (snd p) @ '';'') c acc
    = acc @ concat (map keyItem c)"
  by (induction c arbitrary: acc) (simp_all add: keyItem_def)

lemma cycleKey_eq: "cycleKey c = concat (map keyItem c)"
  unfolding cycleKey_def cycleKey_concat by simp

lemma append_sep_eq:
  "x \<notin> set xs \<Longrightarrow> x \<notin> set xs' \<Longrightarrow> xs @ x # ys = xs' @ x # ys' \<Longrightarrow> xs = xs' \<and> ys = ys'"
proof (induction xs arbitrary: xs')
  case Nil
  then show ?case by (cases xs') auto
next
  case (Cons a xs)
  then show ?case by (cases xs') auto
qed

lemma keyItem_inj:
  assumes "keyItem p @ r = keyItem q @ r'"
  shows "p = q \<and> r = r'"
proof -
  have c: "CHR '','' \<notin> set (to_string i)" "CHR '';'' \<notin> set (to_string i)" for i
  proof -
    have "CHR '','' \<notin> set ''-0123456789''" "CHR '';'' \<notin> set ''-0123456789''" by simp_all
    then show "CHR '','' \<notin> set (to_string i)" "CHR '';'' \<notin> set (to_string i)"
      using to_string_chars [of i] by blast+
  qed
  have "to_string (fst p) @ CHR '','' # (to_string (snd p) @ CHR '';'' # r)
      = to_string (fst q) @ CHR '','' # (to_string (snd q) @ CHR '';'' # r')"
    using assms by (simp add: keyItem_def)
  then have 1: "to_string (fst p) = to_string (fst q)"
    and 2: "to_string (snd p) @ CHR '';'' # r = to_string (snd q) @ CHR '';'' # r'"
    using append_sep_eq [OF c(1) c(1)] by blast+
  have 3: "to_string (snd p) = to_string (snd q)" and 4: "r = r'"
    using append_sep_eq [OF c(2) c(2) 2] by blast+
  show ?thesis using 4 to_string_inj [OF 1] to_string_inj [OF 3] by (simp add: prod_eq_iff)
qed

lemma keyItem_ne: "keyItem p \<noteq> []"
  by (simp add: keyItem_def)

lemma cycleKey_inj: "cycleKey c = cycleKey c' \<Longrightarrow> c = c'"
  unfolding cycleKey_eq
proof (induction c arbitrary: c')
  case Nil
  then show ?case by (cases c') (simp_all add: keyItem_ne)
next
  case (Cons p c)
  show ?case
  proof (cases c')
    case Nil
    then show ?thesis using Cons.prems by (simp add: keyItem_ne)
  next
    case (Cons q d)
    then have "keyItem p @ concat (map keyItem c) = keyItem q @ concat (map keyItem d)"
      using Cons.prems by simp
    then have "p = q" "concat (map keyItem c) = concat (map keyItem d)"
      by (blast dest: keyItem_inj)+
    then show ?thesis using Cons.IH Cons by simp
  qed
qed

subsection \<open>The loop, and the enumerator as a whole\<close>

lemma dedup_invariant:
  "seen (fold dedupStep xs \<lparr> seen = {}, out_cyclesPairs = cp, out_sequences = sq \<rparr>) = cycleKey ` set xs
   \<and> out_cyclesPairs (fold dedupStep xs \<lparr> seen = {}, out_cyclesPairs = cp, out_sequences = sq \<rparr>)
       = cp @ firstSeen xs
   \<and> out_sequences (fold dedupStep xs \<lparr> seen = {}, out_cyclesPairs = cp, out_sequences = sq \<rparr>)
       = sq @ map (map fst) (firstSeen xs)"
proof (induction xs rule: rev_induct)
  case Nil
  then show ?case by (simp add: firstSeen_def)
next
  case (snoc x xs)
  have "cycleKey x \<in> cycleKey ` set xs \<longleftrightarrow> x \<in> set xs"
    by (blast dest: cycleKey_inj)
  then show ?case using snoc
    by (auto simp: dedupStep_def Let_def firstSeen_snoc set_firstSeen)
qed

lemma computeModCycles_eq:
  assumes "capFits m"
  shows "computeModCycles m sq cp =
           Inr (sq @ map (map fst) (firstSeen (map (\<lambda>s. canonicalCycle (orbit m s)) (startPairs m))),
                cp @ firstSeen (map (\<lambda>s. canonicalCycle (orbit m s)) (startPairs m)))"
proof -
  have "rawCycles (scanAll m) = firstSeen (map (\<lambda>s. canonicalCycle (orbit m s)) (startPairs m))"
    using scan_invariant [OF assms, of "startPairs m"] by (simp add: scanAll_fold set_startPairs)
  then show ?thesis
    using capFits_pos [OF assms] by (simp add: computeModCycles_def Let_def dedup_invariant firstSeen_idem)
qed

section \<open>The result as a partition\<close>

subsection \<open>The retained cycles\<close>








subsection \<open>The traversal paths\<close>



text \<open>
  The scan that records the paths takes the same decisions as the scan of the source:
  after any list of starting pairs both have marked the same states as visited.
\<close>

lemma pathStep_visited:
  "fst (pathStep m s (visited st, P)) = visited (startStep m s st)"
  by (cases "walk m (maxIterations m) s [] Map.empty 0") (simp add: pathStep_def startStep_def)

lemma fold_pathStep_visited:
  "fst (fold (pathStep m) ps (visited st, P)) = visited (fold (startStep m) ps st)"
proof (induction ps arbitrary: st P)
  case Nil
  then show ?case by simp
next
  case (Cons s ps)
  obtain P' where e: "pathStep m s (visited st, P) = (visited (startStep m s st), P')"
    using pathStep_visited [of m s st P] by (cases "pathStep m s (visited st, P)") simp
  have "fold (pathStep m) (s # ps) (visited st, P)
          = fold (pathStep m) ps (visited (startStep m s st), P')"
    by (simp add: e)
  then show ?case using Cons.IH [of "startStep m s st" P'] by simp
qed




section \<open>The traversal for an arbitrary modulus and cap\<close>










section \<open>The scan for an arbitrary modulus\<close>



lemma computeModCycles_raw:
  assumes "0 < m"
  shows "computeModCycles m [] [] =
           Inr (map (map fst) (firstSeen (rawCycles (scanAll m))), firstSeen (rawCycles (scanAll m)))"
  using assms by (simp add: computeModCycles_def Let_def dedup_invariant)




section \<open>The paths for an arbitrary modulus\<close>












section \<open>When the cap has wrapped\<close>




text \<open>The modulus \<open>2\<^sup>3\<^sup>2\<close>: the cap wraps to 1000, far below the period of \<open>(0,1)\<close>.\<close>

text \<open>The bounds are sharp: the first modulus at which the cap wraps, and the first at
  which a sum of two components overflows.\<close>

lemma cap_first_wrap:
  "maxIterations 3037000499 = 2 * 3037000499 * 3037000499 + 1000"
  "maxIterations 3037000500 = 290949384"
  by (simp_all add: maxIterations_def)

lemma sum_first_overflow:
  "(2 ^ 62, 2 ^ 62) \<in> states (2 ^ 62 + 1)"
  "nextState (2 ^ 62 + 1) (2 ^ 62, 2 ^ 62) = (2 ^ 62, - (2 ^ 62 - 1))"
  by (simp_all add: states_def nextState_def wrap64_def cmod_def)








section \<open>The claims\<close>

text \<open>
  Claim C9. Canonicalization is idempotent: canonicalizing the result of \<open>canonicalCycle\<close>
  returns it unchanged. This holds for every list, the empty one included.
\<close>

theorem canonicalCycle_idempotent:
  "canonicalCycle (canonicalCycle c) = canonicalCycle c"
  by (rule canonicalCycle_idem)

text \<open>
  Claim C4, as stated, fails: a cycle that holds its least pair at two positions has
  rotations with different canonical forms, because ties go to the lowest index.
\<close>

theorem canonicalCycle_rotation_counterexample:
  "rotate 2 [(0, 0), (1, 1), (0, 0), (2, 2)] = ([(0, 0), (2, 2), (0, 0), (1, 1)] :: Pair list)
   \<and> canonicalCycle [(0, 0), (2, 2), (0, 0), (1, 1)] \<noteq> canonicalCycle [(0, 0), (1, 1), (0, 0), (2, 2)]"
  by code_simp

text \<open>
  Claim C4, amended. Canonicalization is rotation-invariant for every cycle in which the
  lexicographically least pair occurs exactly once: every rotation of such a cycle has the
  same canonical form.
\<close>

theorem canonicalCycle_rotation_invariant:
  assumes "count_list c (c ! findMinCycleIndex c) = 1"
  shows "canonicalCycle (rotate n c) = canonicalCycle c"
proof (rule canonicalCycle_rotate_invariant)
  have "c \<noteq> []" using assms by auto
  then have k: "findMinCycleIndex c < length c" by (rule findMinCycleIndex_props(1))
  fix i assume "i < length c" "c ! i = c ! findMinCycleIndex c"
  then show "i = findMinCycleIndex c"
    using count_list_one_index [OF assms _ k] by simp
qed

text \<open>The amended claim C4 at a cycle of three pairs, rotated by two.\<close>

theorem canonicalCycle_rotation_invariant_witness:
  "count_list ([(1, 2), (0, 1), (1, 1)] :: Pair list) ([(1, 2), (0, 1), (1, 1)] ! findMinCycleIndex [(1, 2), (0, 1), (1, 1)]) = 1
   \<and> canonicalCycle (rotate 2 [(1, 2), (0, 1), (1, 1)]) = [(0, 1), (1, 1), (1, 2)]
   \<and> canonicalCycle [(1, 2), (0, 1), (1, 1)] = [(0, 1), (1, 1), (1, 2)]"
proof -
  have h: "count_list ([(1, 2), (0, 1), (1, 1)] :: Pair list) ([(1, 2), (0, 1), (1, 1)] ! findMinCycleIndex [(1, 2), (0, 1), (1, 1)]) = 1"
    by code_simp
  have e: "canonicalCycle [(1, 2), (0, 1), (1, 1)] = [(0, 1), (1, 1), (1, 2)]"
    by code_simp
  show ?thesis
    using h e canonicalCycle_rotation_invariant [OF h, of 2] by simp
qed




text \<open>
  Claim C2. For every \<open>m > 0\<close> the returned cycles (and with them the parallel
  sequences) are the raw cycles in the order in which the scan over the starting pairs
  (\<open>a0\<close> outer, \<open>b0\<close> inner) found them, with only the first occurrence of each kept, in
  first-seen order. As long as the cap does not wrap (\<open>m \<le> 3037000499\<close>) this is the list
  of the canonical cycles of all starting pairs in row-major order, with only the first
  occurrence of each kept.
\<close>

theorem computeModCycles_discovery_order:
  assumes "0 < m"
  shows "computeModCycles m [] [] =
           Inr (map (map fst) (firstSeen (rawCycles (scanAll m))), firstSeen (rawCycles (scanAll m)))
       \<and> scanAll m = fold (startStep m) (startPairs m) \<lparr> visited = {}, rawCycles = [] \<rparr>
       \<and> (m \<le> 3037000499 \<longrightarrow>
            computeModCycles m [] [] =
              Inr (map (map fst) (firstSeen (map (\<lambda>s. canonicalCycle (orbit m s)) (startPairs m))),
                   firstSeen (map (\<lambda>s. canonicalCycle (orbit m s)) (startPairs m))))"
proof -
  have "m \<le> 3037000499 \<Longrightarrow> capFits m" using assms by (simp add: capFits_def)
  then show ?thesis
    using computeModCycles_raw [OF assms] scanAll_fold [of m] computeModCycles_eq [of m "[]" "[]"]
    by simp
qed

text \<open>Claim C2 at \<open>m = 2\<close>: three of the four starting pairs lie on the same cycle.\<close>

theorem computeModCycles_discovery_order_witness:
  "(0::int) < 2 \<and> (2::int) \<le> 3037000499
   \<and> startPairs 2 = [(0, 0), (0, 1), (1, 0), (1, 1)]
   \<and> computeModCycles 2 [] [] = Inr ([[0], [0, 1, 1]], [[(0, 0)], [(0, 1), (1, 1), (1, 0)]])
   \<and> firstSeen (rawCycles (scanAll 2)) = [[(0, 0)], [(0, 1), (1, 1), (1, 0)]]
   \<and> firstSeen (map (\<lambda>s. canonicalCycle (orbit 2 s)) (startPairs 2))
       = [[(0, 0)], [(0, 1), (1, 1), (1, 0)]]"
proof -
  have h: "(0::int) < 2" and b: "(2::int) \<le> 3037000499" by simp_all
  have p: "startPairs 2 = [(0, 0), (0, 1), (1, 0), (1, 1)]"
    by code_simp
  have v: "computeModCycles 2 [] [] = Inr ([[0], [0, 1, 1]], [[(0, 0)], [(0, 1), (1, 1), (1, 0)]])"
    by code_simp
  note t = computeModCycles_discovery_order [OF h]
  have "computeModCycles 2 [] [] =
           Inr (map (map fst) (firstSeen (rawCycles (scanAll 2))), firstSeen (rawCycles (scanAll 2)))"
    using t by blast
  then have r: "firstSeen (rawCycles (scanAll 2)) = [[(0, 0)], [(0, 1), (1, 1), (1, 0)]]"
    unfolding v by simp
  have "computeModCycles 2 [] [] =
           Inr (map (map fst) (firstSeen (map (\<lambda>s. canonicalCycle (orbit 2 s)) (startPairs 2))),
                firstSeen (map (\<lambda>s. canonicalCycle (orbit 2 s)) (startPairs 2)))"
    using t b by blast
  then have f: "firstSeen (map (\<lambda>s. canonicalCycle (orbit 2 s)) (startPairs 2))
       = [[(0, 0)], [(0, 1), (1, 1), (1, 0)]]"
    unfolding v by simp
  show ?thesis using h b p v r f by (intro conjI)
qed




text \<open>
  Claim C5, as stated, fails for the enumerator itself: called with a modulus \<open>\<le> 0\<close>,
  \<open>computeModCycles\<close> returns normally and signals nothing.
\<close>

theorem invalid_modulus_counterexample:
  "computeModCycles 0 [] [] = Inr ([], []) \<and> computeModCycles 0 [] [] \<noteq> Inl InvalidModulus
   \<and> computeModCycles (- 5) [] [] = Inr ([], [])"
  by (simp add: computeModCycles_def)

text \<open>
  Claim C5, amended. For a modulus \<open>\<le> 0\<close>, \<open>computeModCycles\<close> returns at once without
  an error and leaves both output vectors as they were, so no sequence and no cycle is
  emitted; the invalid-modulus condition is raised by \<open>main\<close>, which rejects the modulus
  with exit status 1 before it calls the enumerator and before any output.
\<close>

theorem invalid_modulus_no_output:
  assumes "m \<le> 0"
  shows "computeModCycles m sequences cyclesPairs = Inr (sequences, cyclesPairs)
       \<and> main_body m = Inl InvalidModulus"
  using assms by (simp add: computeModCycles_def main_body_def)

text \<open>The amended claim C5 at \<open>m = - 5\<close> and at \<open>m = 0\<close>.\<close>

theorem invalid_modulus_no_output_witness:
  "(- 5 :: int) \<le> 0 \<and> computeModCycles (- 5) [] [] = Inr ([], []) \<and> main_body (- 5) = Inl InvalidModulus
   \<and> (0 :: int) \<le> 0 \<and> computeModCycles 0 [] [] = Inr ([], []) \<and> main_body 0 = Inl InvalidModulus"
proof -
  have a: "(- 5 :: int) \<le> 0" and b: "(0 :: int) \<le> 0" by simp_all
  show ?thesis
    using a b invalid_modulus_no_output [OF a, of "[]" "[]"] invalid_modulus_no_output [OF b, of "[]" "[]"]
    by blast
qed




text \<open>
  Claim C7, as stated, fails: for \<open>m = 8\<close> the enumeration returns eight cycles, not six,
  and their lengths are not \<open>{1,2,3,6,12,12}\<close> (which sum to 36, not 64).
\<close>

theorem mod8_counterexample:
  "length (snd (projr (computeModCycles 8 [] []))) = 8
   \<and> map length (snd (projr (computeModCycles 8 [] []))) = [1, 12, 6, 12, 3, 6, 12, 12]"
  by code_simp

text \<open>
  Claim C7, amended. For \<open>m = 8\<close> the enumeration returns exactly 8 distinct canonical
  cycles, of lengths 1, 12, 6, 12, 3, 6, 12, 12 in discovery order, and the total number
  of elements across the returned cycles is 64.
\<close>

theorem mod8_cycles:
  "computeModCycles 8 [] [] =
     Inr ([[0], [0, 1, 1, 2, 3, 5, 0, 5, 5, 2, 7, 1], [0, 2, 2, 4, 6, 2],
            [0, 3, 3, 6, 1, 7, 0, 7, 7, 6, 5, 3], [0, 4, 4], [0, 6, 6, 4, 2, 6],
            [1, 3, 4, 7, 3, 2, 5, 7, 4, 3, 7, 2],
            [1, 4, 5, 1, 6, 7, 5, 4, 1, 5, 6, 3]],
          [[(0, 0)],
            [(0, 1), (1, 1), (1, 2), (2, 3), (3, 5), (5, 0), (0, 5), (5, 5),
             (5, 2), (2, 7), (7, 1), (1, 0)],
            [(0, 2), (2, 2), (2, 4), (4, 6), (6, 2), (2, 0)],
            [(0, 3), (3, 3), (3, 6), (6, 1), (1, 7), (7, 0), (0, 7), (7, 7),
             (7, 6), (6, 5), (5, 3), (3, 0)],
            [(0, 4), (4, 4), (4, 0)],
            [(0, 6), (6, 6), (6, 4), (4, 2), (2, 6), (6, 0)],
            [(1, 3), (3, 4), (4, 7), (7, 3), (3, 2), (2, 5), (5, 7), (7, 4),
             (4, 3), (3, 7), (7, 2), (2, 1)],
            [(1, 4), (4, 5), (5, 1), (1, 6), (6, 7), (7, 5), (5, 4), (4, 1),
             (1, 5), (5, 6), (6, 3), (3, 1)]])
   \<and> map length
           [[(0, 0)],
            [(0, 1), (1, 1), (1, 2), (2, 3), (3, 5), (5, 0), (0, 5), (5, 5),
             (5, 2), (2, 7), (7, 1), (1, 0)],
            [(0, 2), (2, 2), (2, 4), (4, 6), (6, 2), (2, 0)],
            [(0, 3), (3, 3), (3, 6), (6, 1), (1, 7), (7, 0), (0, 7), (7, 7),
             (7, 6), (6, 5), (5, 3), (3, 0)],
            [(0, 4), (4, 4), (4, 0)],
            [(0, 6), (6, 6), (6, 4), (4, 2), (2, 6), (6, 0)],
            [(1, 3), (3, 4), (4, 7), (7, 3), (3, 2), (2, 5), (5, 7), (7, 4),
             (4, 3), (3, 7), (7, 2), (2, 1)],
            [(1, 4), (4, 5), (5, 1), (1, 6), (6, 7), (7, 5), (5, 4), (4, 1),
             (1, 5), (5, 6), (6, 3), (3, 1)]] = [1, 12, 6, 12, 3, 6, 12, 12]
   \<and> sum_list (map length
           [[(0, 0)],
            [(0, 1), (1, 1), (1, 2), (2, 3), (3, 5), (5, 0), (0, 5), (5, 5),
             (5, 2), (2, 7), (7, 1), (1, 0)],
            [(0, 2), (2, 2), (2, 4), (4, 6), (6, 2), (2, 0)],
            [(0, 3), (3, 3), (3, 6), (6, 1), (1, 7), (7, 0), (0, 7), (7, 7),
             (7, 6), (6, 5), (5, 3), (3, 0)],
            [(0, 4), (4, 4), (4, 0)],
            [(0, 6), (6, 6), (6, 4), (4, 2), (2, 6), (6, 0)],
            [(1, 3), (3, 4), (4, 7), (7, 3), (3, 2), (2, 5), (5, 7), (7, 4),
             (4, 3), (3, 7), (7, 2), (2, 1)],
            [(1, 4), (4, 5), (5, 1), (1, 6), (6, 7), (7, 5), (5, 4), (4, 1),
             (1, 5), (5, 6), (6, 3), (3, 1)]]) = 64"
  by code_simp

text \<open>
  Claim C8. For every \<open>m > 0\<close> the returned sequences are the projection of the returned
  cycles on the first component: as many sequences as cycles, each sequence as long as
  its cycle, and \<open>sequences[i][j]\<close> the first component of \<open>cyclesPairs[i][j]\<close>.
\<close>

theorem sequences_project_cycles:
  assumes "0 < m"
  shows "\<exists>sequences cyclesPairs.
           computeModCycles m [] [] = Inr (sequences, cyclesPairs)
         \<and> length sequences = length cyclesPairs
         \<and> (\<forall>i<length cyclesPairs.
               length (sequences ! i) = length (cyclesPairs ! i)
             \<and> (\<forall>j<length (cyclesPairs ! i). sequences ! i ! j = fst (cyclesPairs ! i ! j)))"
proof -
  let ?cs = "firstSeen (rawCycles (scanAll m))"
  have "computeModCycles m [] [] = Inr (map (map fst) ?cs, ?cs)"
    by (rule computeModCycles_raw [OF assms])
  moreover have "length (map (map fst) ?cs) = length ?cs" by simp
  moreover have "\<forall>i<length ?cs. length (map (map fst) ?cs ! i) = length (?cs ! i)
             \<and> (\<forall>j<length (?cs ! i). map (map fst) ?cs ! i ! j = fst (?cs ! i ! j))"
    by simp
  ultimately show ?thesis by blast
qed

text \<open>Claim C8 at \<open>m = 2\<close>.\<close>

theorem sequences_project_cycles_witness:
  "(0::int) < 2
   \<and> computeModCycles 2 [] [] = Inr ([[0], [0, 1, 1]], [[(0, 0)], [(0, 1), (1, 1), (1, 0)]])
   \<and> (\<exists>sequences cyclesPairs.
           computeModCycles 2 [] [] = Inr (sequences, cyclesPairs)
         \<and> length sequences = length cyclesPairs
         \<and> (\<forall>i<length cyclesPairs.
               length (sequences ! i) = length (cyclesPairs ! i)
             \<and> (\<forall>j<length (cyclesPairs ! i). sequences ! i ! j = fst (cyclesPairs ! i ! j))))"
proof -
  have h: "(0::int) < 2" by simp
  have v: "computeModCycles 2 [] [] = Inr ([[0], [0, 1, 1]], [[(0, 0)], [(0, 1), (1, 1), (1, 0)]])"
    by code_simp
  show ?thesis using h v sequences_project_cycles [OF h] by blast
qed




end
